theory Spec2Isabelle
  imports Complex_Main "HOL-Library.Word"
begin

section \<open>Bytes, exceptions and the frame header codec\<close>

text \<open>
  A Python \<open>bytes\<close> value is a list of 8-bit words. Python integers are unbounded, so they
  are \<open>int\<close>; the exceptions the modelled code can raise are values of \<open>error\<close>.
\<close>

type_synonym byte = "8 word"

datatype error = StructError | ValueError | IndexError | KeyError | ZeroDivisionError

text \<open>
  \<open>struct.pack("!iii", a, b, c)\<close> (server.py lines 87 and 98) writes three signed 32-bit
  integers in network byte order and raises \<open>struct.error\<close> when an argument lies outside
  \<open>-2147483648 .. 2147483647\<close>. \<open>be_bytes4\<close> is the two's complement big-endian image
  of one field (\<open>word_of_int\<close> keeps the low eight bits).
\<close>

definition in_i32 :: "int \<Rightarrow> bool" where
  "in_i32 x \<longleftrightarrow> - 2147483648 \<le> x \<and> x \<le> 2147483647"

definition be_bytes4 :: "int \<Rightarrow> byte list" where
  "be_bytes4 x = [word_of_int (x div 16777216), word_of_int (x div 65536),
                  word_of_int (x div 256), word_of_int x]"

definition pack_i :: "int \<Rightarrow> error + byte list" where
  "pack_i x = (if in_i32 x then Inr (be_bytes4 x) else Inl StructError)"

definition pack_iii :: "int \<Rightarrow> int \<Rightarrow> int \<Rightarrow> error + byte list" where
  "pack_iii a b c =
     (case pack_i a of Inl e \<Rightarrow> Inl e | Inr ba \<Rightarrow>
      (case pack_i b of Inl e \<Rightarrow> Inl e | Inr bb \<Rightarrow>
       (case pack_i c of Inl e \<Rightarrow> Inl e | Inr bc \<Rightarrow> Inr (ba @ bb @ bc))))"

text \<open>
  \<open>struct.unpack('!iii', header)\<close> (client.py line 82) raises \<open>struct.error\<close> unless the
  buffer holds exactly 12 bytes; each group of four bytes is read most significant byte
  first and taken as a two's complement number.
\<close>

definition be_value :: "byte list \<Rightarrow> int" where
  "be_value bs = foldl (\<lambda>acc b. acc * 256 + uint b) 0 bs"

definition unpack_i :: "byte list \<Rightarrow> int" where
  "unpack_i bs = (let u = be_value bs in if 2147483648 \<le> u then u - 4294967296 else u)"

definition unpack_iii :: "byte list \<Rightarrow> error + (int \<times> int \<times> int)" where
  "unpack_iii bs =
     (if length bs \<noteq> 12 then Inl StructError
      else Inr (unpack_i (take 4 bs), unpack_i (take 4 (drop 4 bs)), unpack_i (drop 8 bs)))"

section \<open>Python lists: slices, ranges and indexing\<close>

text \<open>
  \<open>xs[lo:hi]\<close> clamps both bounds to the list (a negative bound counts from the end) and
  is empty when the bounds cross; \<open>range(n)\<close> is empty for \<open>n \<le> 0\<close>; \<open>xs[i]\<close> accepts
  \<open>-len(xs) \<le> i < len(xs)\<close> and raises \<open>IndexError\<close> otherwise.
\<close>

definition slice_index :: "nat \<Rightarrow> int \<Rightarrow> nat" where
  "slice_index n i = (if i < 0 then nat (max 0 (int n + i)) else min n (nat i))"

definition py_slice :: "'a list \<Rightarrow> int \<Rightarrow> int \<Rightarrow> 'a list" where
  "py_slice xs lo hi =
     (let a = slice_index (length xs) lo; b = slice_index (length xs) hi
      in take (b - a) (drop a xs))"

definition py_range :: "int \<Rightarrow> int list" where
  "py_range n = map int [0..<nat n]"

definition list_index :: "nat \<Rightarrow> int \<Rightarrow> nat option" where
  "list_index n i =
     (if 0 \<le> i \<and> i < int n then Some (nat i)
      else if - int n \<le> i \<and> i < 0 then Some (nat (int n + i))
      else None)"

section \<open>The sender: \<open>QuicServer.send_file\<close>\<close>

text \<open>
  The connection is the list of buffers handed to \<open>connection.send\<close>, oldest first.
  \<open>package\<close> is the slice of server.py line 86. \<open>send_loop\<close> is the
  \<open>for i in range(num_packages)\<close> loop of lines 85-91: it slices package \<open>i\<close>, packs
  the header, sends header and package, and adds the package's length to \<open>sum_bytes\<close>.
  A \<open>struct.error\<close> leaves the loop with what was sent so far.
\<close>

definition package :: "byte list \<Rightarrow> int \<Rightarrow> int \<Rightarrow> byte list" where
  "package file_data package_size i =
     py_slice file_data (i * package_size) ((i + 1) * package_size)"

fun send_loop ::
  "byte list \<Rightarrow> int \<Rightarrow> int \<Rightarrow> int list \<Rightarrow> byte list list \<Rightarrow> int
     \<Rightarrow> error option \<times> byte list list \<times> int" where
  "send_loop file_data package_size id_stream [] conn sum_bytes = (None, conn, sum_bytes)"
| "send_loop file_data package_size id_stream (i # rest) conn sum_bytes =
     (let pkg = package file_data package_size i in
      case pack_iii id_stream (int (length pkg)) i of
        Inl e \<Rightarrow> (Some e, conn, sum_bytes)
      | Inr header \<Rightarrow>
          send_loop file_data package_size id_stream rest
            (conn @ [header, pkg]) (sum_bytes + int (length pkg)))"

text \<open>
  \<open>send_file\<close> (server.py lines 80-101) returns the connection after the call together
  with either the exception raised or the integer statistics \<open>(sum_bytes, num_packages)\<close>
  it publishes. \<open>//\<close> is floor division, which is \<open>div\<close> on \<open>int\<close>; a zero package size
  raises \<open>ZeroDivisionError\<close>. The clock readings of the statistics tuple are inputs of
  \<open>close\<close> below and are not computed here.
\<close>

definition send_file ::
  "int \<Rightarrow> byte list \<Rightarrow> int \<Rightarrow> byte list list \<Rightarrow> (error + int \<times> int) \<times> byte list list" where
  "send_file package_size file_data id_stream conn =
     (if package_size = 0 then (Inl ZeroDivisionError, conn)
      else
        let total_length = int (length file_data);
            num_packages = (total_length + package_size - 1) div package_size
        in case send_loop file_data package_size id_stream (py_range num_packages) conn 0 of
             (Some e, conn', sum_bytes) \<Rightarrow> (Inl e, conn')
           | (None, conn', sum_bytes) \<Rightarrow>
               (case pack_iii id_stream 0 0 of
                  Inl e \<Rightarrow> (Inl e, conn')
                | Inr marker \<Rightarrow> (Inr (sum_bytes, num_packages), conn' @ [marker])))"


section \<open>The receiver: \<open>QuicClient.recv_file\<close>\<close>

text \<open>
  The receiving socket is the list of byte segments still to arrive, in order; when the
  list is exhausted the peer has closed the connection. \<open>socket.recv(bufsize)\<close> returns
  at most \<open>bufsize\<close> bytes and never more than the segment at the front holds, returns
  \<open>b''\<close> at end of stream, and raises \<open>ValueError\<close> for a negative size.
\<close>

type_synonym sock = "byte list list"

definition recv :: "sock \<Rightarrow> int \<Rightarrow> error + byte list \<times> sock" where
  "recv s bufsize =
     (if bufsize < 0 then Inl ValueError
      else case dropWhile (\<lambda>seg. seg = []) s of
             [] \<Rightarrow> Inr ([], [])
           | seg # rest \<Rightarrow>
               Inr (take (nat bufsize) seg,
                    if drop (nat bufsize) seg = [] then rest
                    else drop (nat bufsize) seg # rest))"

text \<open>
  The two arguments of \<open>recv_file\<close>: the dictionary of reassembly buffers and the list of
  next expected package numbers, both shared by all workers. \<open>initial_state\<close> builds them
  as client.py lines 163-164 do.
\<close>

record client_state =
  file_buffers :: "int \<rightharpoonup> byte list"
  curret_package :: "int list"

definition initial_state :: "int \<Rightarrow> client_state" where
  "initial_state number_of_files =
     \<lparr>file_buffers = (\<lambda>i. if 0 \<le> i \<and> i < number_of_files then Some [] else None),
      curret_package = replicate (nat number_of_files) 0\<rparr>"

text \<open>
  How a worker leaves its loop: the empty read of line 78, the zero length of line 85,
  an exception caught and printed at lines 90-93, or an exception that escapes the
  method.
\<close>

datatype outcome = Eof | EndOfStream | Caught error | Uncaught error

text \<open>
  \<open>recv_frame\<close> is the body of the \<open>try\<close> block (client.py lines 77-93): read a header,
  unpack it, and unless the length is zero read the package.
\<close>

definition recv_frame :: "sock \<Rightarrow> (outcome + int \<times> int \<times> int \<times> byte list) \<times> sock" where
  "recv_frame s =
     (case recv s 12 of
        Inl e \<Rightarrow> (Inl (Caught e), s)
      | Inr (header, s1) \<Rightarrow>
          if header = [] then (Inl Eof, s1)
          else case unpack_iii header of
                 Inl e \<Rightarrow> (Inl (Caught e), s1)
               | Inr (id_stream, data_length, id_package) \<Rightarrow>
                   if data_length = 0 then (Inl EndOfStream, s1)
                   else case recv s1 data_length of
                          Inl e \<Rightarrow> (Inl (Caught e), s1)
                        | Inr (pkg, s2) \<Rightarrow>
                            (Inr (id_stream, data_length, id_package, pkg), s2))"

text \<open>
  \<open>commit_loop\<close> is the \<open>while not is_curret_package\<close> loop of lines 98-104. With no other
  worker to advance the counter it never returns when the package number is not the
  expected one, which is the value \<open>None\<close>. \<open>commit\<close> adds the membership test of
  line 96.
\<close>

partial_function (option) commit_loop ::
  "client_state \<Rightarrow> int \<Rightarrow> int \<Rightarrow> byte list \<Rightarrow> bool \<Rightarrow> (error option \<times> client_state) option" where
  "commit_loop st id_stream id_package pkg is_curret_package =
     (if is_curret_package then Some (None, st)
      else case list_index (length (curret_package st)) id_stream of
             None \<Rightarrow> Some (Some IndexError, st)
           | Some k \<Rightarrow>
               if curret_package st ! k = id_package then
                 (let st1 = st\<lparr>curret_package :=
                                (curret_package st)[k := curret_package st ! k + 1]\<rparr>
                  in case file_buffers st1 id_stream of
                       None \<Rightarrow> Some (Some KeyError, st1)
                     | Some buf \<Rightarrow>
                         commit_loop
                           (st1\<lparr>file_buffers := (file_buffers st1)(id_stream \<mapsto> buf @ pkg)\<rparr>)
                           id_stream id_package pkg True)
               else commit_loop st id_stream id_package pkg False)"

definition commit ::
  "client_state \<Rightarrow> int \<Rightarrow> int \<Rightarrow> byte list \<Rightarrow> (error option \<times> client_state) option" where
  "commit st id_stream id_package pkg =
     (if file_buffers st id_stream \<noteq> None then commit_loop st id_stream id_package pkg False
      else Some (None, st))"

text \<open>
  \<open>recv_file\<close> is the \<open>while True\<close> loop of one worker running alone. Every frame it reads
  takes at least one byte off the socket, so the loop ends on a finite input unless a
  commit spins forever.
\<close>

lemma concat_dropWhile_empty: "concat (dropWhile (\<lambda>seg. seg = []) s) = concat s"
  by (induction s) simp_all

lemma recv_length:
  assumes "recv s n = Inr (d, s')"
  shows "length d + length (concat s') = length (concat s)"
proof -
  have n: "\<not> n < 0" using assms by (auto simp: recv_def split: if_splits)
  have e: "(case dropWhile (\<lambda>seg. seg = []) s of
             [] \<Rightarrow> Inr ([], [])
           | seg # rest \<Rightarrow>
               Inr (take (nat n) seg,
                    if drop (nat n) seg = [] then rest else drop (nat n) seg # rest)) =
           (Inr (d, s') :: error + byte list \<times> sock)"
    using assms n by (simp add: recv_def)
  show ?thesis
  proof (cases "dropWhile (\<lambda>seg. seg = []) s")
    case Nil
    have "d = []" "s' = []" using e unfolding Nil by simp_all
    moreover have "concat s = []" using Nil concat_dropWhile_empty [of s] by simp
    ultimately show ?thesis by simp
  next
    case (Cons seg rest)
    have c: "length (concat s) = length seg + length (concat rest)"
      using Cons concat_dropWhile_empty [of s] by (metis concat.simps(2) length_append)
    have d: "d = take (nat n) seg"
      and s': "s' = (if drop (nat n) seg = [] then rest else drop (nat n) seg # rest)"
      using e unfolding Cons by simp_all
    have "length (concat (if drop (nat n) seg = [] then rest else drop (nat n) seg # rest)) =
        length (drop (nat n) seg) + length (concat rest)"
      by simp
    then show ?thesis
      unfolding c d s' by (simp add: min_def)
  qed
qed

lemma recv_frame_shrinks:
  assumes "recv_frame s = (Inr f, s')"
  shows "length (concat s') < length (concat s)"
proof -
  obtain header s1 where h: "recv s 12 = Inr (header, s1)" and ne: "header \<noteq> []"
    using assms by (auto simp: recv_frame_def split: sum.splits prod.splits if_splits)
  obtain a b c where u: "unpack_iii header = Inr (a, b, c)" and b: "b \<noteq> 0"
    using assms h ne by (auto simp: recv_frame_def split: sum.splits prod.splits if_splits)
  obtain pkg where p: "recv s1 b = Inr (pkg, s')"
    using assms h ne u b by (auto simp: recv_frame_def split: sum.splits prod.splits if_splits)
  have "length header + length (concat s1) = length (concat s)"
    using h by (rule recv_length)
  moreover have "length pkg + length (concat s') = length (concat s1)"
    using p by (rule recv_length)
  moreover have "0 < length header" using ne by simp
  ultimately show ?thesis by linarith
qed

function recv_file :: "sock \<Rightarrow> client_state \<Rightarrow> (outcome \<times> sock \<times> client_state) option" where
  "recv_file s st =
     (case recv_frame s of
        (Inl reason, s') \<Rightarrow> Some (reason, s', st)
      | (Inr (id_stream, data_length, id_package, pkg), s') \<Rightarrow>
          (case commit st id_stream id_package pkg of
             None \<Rightarrow> None
           | Some (Some e, st') \<Rightarrow> Some (Uncaught e, s', st')
           | Some (None, st') \<Rightarrow> recv_file s' st'))"
  by pat_completeness auto

termination
  by (relation "measure (\<lambda>(s, st). length (concat s))") (auto dest: recv_frame_shrinks [OF sym])

declare recv_file.simps [simp del]




section \<open>Statistics: \<open>QuicServer.close\<close>\<close>

text \<open>
  A transfer statistic is the tuple \<open>send_file\<close> puts on the result queue (server.py
  line 101): path, bytes, packages, two rates, total time and time until sending. The
  byte and package counts are integers. The times are Python floats; they are taken in
  any linearly ordered type with a zero, and the true division \<open>/\<close> that yields the
  rates is a parameter, so nothing is assumed of floating-point arithmetic beyond the
  order of the values compared. \<open>close_loop\<close> is the \<open>for file_stat in statistic\<close> loop of
  lines 115-119 and \<open>close\<close> returns the five values computed at lines 110-128.
\<close>

type_synonym 'f file_stat = "string \<times> int \<times> int \<times> 'f \<times> 'f \<times> 'f \<times> 'f"

fun close_loop ::
  "('f::{linorder,zero}) file_stat list \<Rightarrow> int \<times> int \<times> 'f \<Rightarrow> int \<times> int \<times> 'f" where
  "close_loop [] acc = acc"
| "close_loop ((file_path, bytes, packages, bytes_per_sec, packages_per_sec,
                total_time_in_sec, time_until_sending) # rest)
              (sum_bytes, sum_packages, total_time) =
     close_loop rest
       (sum_bytes + bytes, sum_packages + packages,
        if total_time_in_sec > total_time then total_time_in_sec else total_time)"

definition close ::
  "(int \<Rightarrow> 'f \<Rightarrow> 'f) \<Rightarrow> ('f::{linorder,zero}) file_stat list \<Rightarrow> int \<times> int \<times> 'f \<times> 'f \<times> 'f" where
  "close truediv statistic =
     (case close_loop statistic (0, 0, 0) of
        (sum_bytes, sum_packages, total_time) \<Rightarrow>
          if total_time > 0
          then (sum_bytes, sum_packages, total_time,
                truediv sum_bytes total_time, truediv sum_packages total_time)
          else (sum_bytes, sum_packages, total_time, 0, 0))"

text \<open>The components \<open>file_stat[1]\<close>, \<open>file_stat[2]\<close> and \<open>file_stat[5]\<close>.\<close>

definition stat_bytes :: "'f file_stat \<Rightarrow> int" where
  "stat_bytes file_stat = fst (snd file_stat)"

definition stat_packages :: "'f file_stat \<Rightarrow> int" where
  "stat_packages file_stat = fst (snd (snd file_stat))"

definition stat_total_time :: "'f file_stat \<Rightarrow> 'f" where
  "stat_total_time file_stat = fst (snd (snd (snd (snd (snd file_stat)))))"

text \<open>Division on the reals, used to run \<open>close\<close> on examples.\<close>

definition exact_div :: "int \<Rightarrow> real \<Rightarrow> real" where
  "exact_div a b = real_of_int a / b"



section \<open>Handshake: \<open>QuicServer.set_up_server\<close>\<close>

text \<open>
  \<open>str_encode n\<close> is \<open>f"{n}".encode()\<close>, the decimal ASCII digits of \<open>n\<close>.
  \<open>int_decode\<close> is \<open>int(number.decode())\<close>: an empty string raises \<open>ValueError\<close> and a
  non-empty string of ASCII digits is its decimal value; what Python does with any other
  byte string (signs, spaces, underscores, other scripts' digits, invalid UTF-8) is the
  parameter \<open>other\<close>.
\<close>

fun digits_of :: "nat \<Rightarrow> byte list" where
  "digits_of n =
     (if n < 10 then [of_nat (48 + n)] else digits_of (n div 10) @ [of_nat (48 + n mod 10)])"

declare digits_of.simps [simp del]

definition str_encode :: "int \<Rightarrow> byte list" where
  "str_encode n = (if n < 0 then 45 # digits_of (nat (- n)) else digits_of (nat n))"

definition is_digit :: "byte \<Rightarrow> bool" where
  "is_digit b \<longleftrightarrow> 48 \<le> uint b \<and> uint b \<le> 57"

definition int_decode :: "(byte list \<Rightarrow> error + int) \<Rightarrow> byte list \<Rightarrow> error + int" where
  "int_decode other number =
     (if number = [] then Inl ValueError
      else if list_all is_digit number
      then Inr (foldl (\<lambda>acc b. acc * 10 + (uint b - 48)) 0 number)
      else other number)"

text \<open>
  The server object: the stream count, the buffers sent on the accepted connection, the
  peer address and the lines printed. \<open>set_up_server\<close> (server.py lines 51-60) takes what
  \<open>accept\<close> returns as the address and the bytes the client will send as a socket.
\<close>

record server =
  number_of_files :: int
  connection :: "byte list list option"
  client_address :: "(string \<times> int) option"
  printed :: "string list"

definition set_up_server ::
  "(byte list \<Rightarrow> error + int) \<Rightarrow> string \<times> int \<Rightarrow> sock \<Rightarrow> server
     \<Rightarrow> error option \<times> server \<times> sock" where
  "set_up_server other addr inbound self =
     (let self1 = self\<lparr>connection := Some [], client_address := Some addr\<rparr>;
          self2 = self1\<lparr>printed := printed self1 @
                    [''Client connected...sending number of files the client should expect'']\<rparr>;
          self3 = self2\<lparr>connection := Some [str_encode (number_of_files self2)]\<rparr>;
          self4 = self3\<lparr>printed := printed self3 @
                    [''Sent it, now we will wait for the client to send it back so we can start...'']\<rparr>
      in case recv inbound 1024 of
           Inl e \<Rightarrow> (Some e, self4, inbound)
         | Inr (number, inbound') \<Rightarrow>
             (case int_decode other number of
                Inl e \<Rightarrow> (Some e, self4, inbound')
              | Inr echoed \<Rightarrow>
                  if echoed \<noteq> number_of_files self4
                  then (None, self4\<lparr>printed := printed self4 @ [''Problem here...'']\<rparr>, inbound')
                  else (None, self4, inbound')))"



section \<open>The pool of receiving workers\<close>

text \<open>
  client.py lines 169-172 start one thread per stream, all running \<open>recv_file\<close> on the
  same socket, lock, buffers and counters. A worker is described by where it stands in
  \<open>recv_file\<close>: waiting to enter \<open>with self.lock\<close> (line 74), inside it before the header
  read (line 77) or before the package read (line 89), in the commit loop before the test
  of line 100, between the increment of line 101 and the \<open>extend\<close> of line 102, or returned.
\<close>

datatype worker =
    AtLock
  | AtHeader
  | AtPayload int int int
  | AtCommit int int "byte list"
  | AtExtend int "byte list"
  | Returned outcome

record pool =
  client_socket :: sock
  lock_held :: bool
  shared :: client_state
  workers :: "worker list"

definition start_pool :: "int \<Rightarrow> sock \<Rightarrow> pool" where
  "start_pool n s =
     \<lparr>client_socket = s, lock_held = False, shared = initial_state n,
      workers = replicate (nat n) AtLock\<rparr>"

text \<open>
  \<open>worker_step w\<close> lets worker \<open>w\<close> run up to its next such point; a worker that cannot
  get the lock, or whose package is not the expected one, stays where it is. Leaving the
  loop from inside the \<open>with\<close> block releases the lock (\<open>leave\<close>). \<open>run_pool\<close> runs the
  workers in the order a schedule names them.
\<close>

definition leave :: "nat \<Rightarrow> outcome \<Rightarrow> pool \<Rightarrow> pool" where
  "leave w reason p = p\<lparr>lock_held := False, workers := (workers p)[w := Returned reason]\<rparr>"

definition worker_step :: "nat \<Rightarrow> pool \<Rightarrow> pool" where
  "worker_step w p =
     (if length (workers p) \<le> w then p
      else case workers p ! w of
        AtLock \<Rightarrow>
          if lock_held p then p
          else p\<lparr>lock_held := True, workers := (workers p)[w := AtHeader]\<rparr>
      | AtHeader \<Rightarrow>
          (case recv (client_socket p) 12 of
             Inl e \<Rightarrow> leave w (Caught e) p
           | Inr (header, s1) \<Rightarrow>
               if header = [] then leave w Eof (p\<lparr>client_socket := s1\<rparr>)
               else case unpack_iii header of
                      Inl e \<Rightarrow> leave w (Caught e) (p\<lparr>client_socket := s1\<rparr>)
                    | Inr (id_stream, data_length, id_package) \<Rightarrow>
                        if data_length = 0 then leave w EndOfStream (p\<lparr>client_socket := s1\<rparr>)
                        else p\<lparr>client_socket := s1,
                               workers := (workers p)[w := AtPayload id_stream data_length id_package]\<rparr>)
      | AtPayload id_stream data_length id_package \<Rightarrow>
          (case recv (client_socket p) data_length of
             Inl e \<Rightarrow> leave w (Caught e) p
           | Inr (pkg, s2) \<Rightarrow>
               p\<lparr>client_socket := s2, lock_held := False,
                  workers := (workers p)
                    [w := if file_buffers (shared p) id_stream \<noteq> None
                          then AtCommit id_stream id_package pkg else AtLock]\<rparr>)
      | AtCommit id_stream id_package pkg \<Rightarrow>
          (case list_index (length (curret_package (shared p))) id_stream of
             None \<Rightarrow> p\<lparr>workers := (workers p)[w := Returned (Uncaught IndexError)]\<rparr>
           | Some k \<Rightarrow>
               if curret_package (shared p) ! k = id_package
               then p\<lparr>shared := (shared p)\<lparr>curret_package :=
                                      (curret_package (shared p))[k := curret_package (shared p) ! k + 1]\<rparr>,
                      workers := (workers p)[w := AtExtend id_stream pkg]\<rparr>
               else p)
      | AtExtend id_stream pkg \<Rightarrow>
          (case file_buffers (shared p) id_stream of
             None \<Rightarrow> p\<lparr>workers := (workers p)[w := Returned (Uncaught KeyError)]\<rparr>
           | Some buf \<Rightarrow>
               p\<lparr>shared := (shared p)\<lparr>file_buffers :=
                                      (file_buffers (shared p))(id_stream \<mapsto> buf @ pkg)\<rparr>,
                  workers := (workers p)[w := AtLock]\<rparr>)
      | Returned reason \<Rightarrow> p)"

definition run_pool :: "nat list \<Rightarrow> pool \<Rightarrow> pool" where
  "run_pool schedule p = foldl (\<lambda>q w. worker_step w q) p schedule"


section \<open>Codec lemmas\<close>

lemma uint_byte: "uint (word_of_int k :: byte) = k mod 256"
  by (simp add: uint_word_of_int)

lemma split_mod_2_32:
  "(x::int) mod 4294967296 =
     16777216 * (x div 16777216 mod 256) +
     (65536 * (x div 65536 mod 256) + (256 * (x div 256 mod 256) + x mod 256))"
proof -
  have a: "x mod 4294967296 = 16777216 * (x div 16777216 mod 256) + x mod 16777216"
    using zmod_zmult2_eq [of 256 x 16777216] by simp
  have b: "x mod 16777216 = 65536 * (x div 65536 mod 256) + x mod 65536"
    using zmod_zmult2_eq [of 256 x 65536] by simp
  have c: "x mod 65536 = 256 * (x div 256 mod 256) + x mod 256"
    using zmod_zmult2_eq [of 256 x 256] by simp
  show ?thesis using a b c by linarith
qed

lemma be_value_be_bytes4: "be_value (be_bytes4 x) = x mod 4294967296"
  unfolding be_value_def be_bytes4_def
  by (simp add: uint_byte split_mod_2_32)

lemma unpack_i_be_bytes4:
  assumes "in_i32 x"
  shows "unpack_i (be_bytes4 x) = x"
proof (cases "0 \<le> x")
  case True
  then have "x mod 4294967296 = x"
    using assms by (simp add: in_i32_def)
  then show ?thesis
    using assms by (simp add: unpack_i_def be_value_be_bytes4 in_i32_def)
next
  case False
  have "(x + 4294967296) mod 4294967296 = x + 4294967296"
    using assms False by (intro mod_pos_pos_trivial) (simp_all add: in_i32_def)
  then have "x mod 4294967296 = x + 4294967296"
    by simp
  then show ?thesis
    using assms False by (simp add: unpack_i_def be_value_be_bytes4 in_i32_def)
qed

lemma length_be_bytes4: "length (be_bytes4 x) = 4"
  by (simp add: be_bytes4_def)

lemma pack_iii_ok:
  "in_i32 a \<Longrightarrow> in_i32 b \<Longrightarrow> in_i32 c \<Longrightarrow>
     pack_iii a b c = Inr (be_bytes4 a @ be_bytes4 b @ be_bytes4 c)"
  by (simp add: pack_iii_def pack_i_def)

lemma pack_iii_Inr_iff:
  "pack_iii a b c = Inr bs \<longleftrightarrow>
     in_i32 a \<and> in_i32 b \<and> in_i32 c \<and> bs = be_bytes4 a @ be_bytes4 b @ be_bytes4 c"
  by (auto simp: pack_iii_def pack_i_def)

lemma pack_iii_error:
  "\<not> (in_i32 a \<and> in_i32 b \<and> in_i32 c) \<Longrightarrow> pack_iii a b c = Inl StructError"
  by (auto simp: pack_iii_def pack_i_def)

lemma unpack_iii_be_bytes4:
  assumes "in_i32 a" "in_i32 b" "in_i32 c"
  shows "unpack_iii (be_bytes4 a @ be_bytes4 b @ be_bytes4 c) = Inr (a, b, c)"
  using assms by (simp add: unpack_iii_def length_be_bytes4 unpack_i_be_bytes4)

lemma be_bytes4_nth:
  "j < 4 \<Longrightarrow> uint (be_bytes4 x ! j) = x div 256 ^ (3 - j) mod 256"
proof -
  assume "j < 4"
  then consider "j = 0" | "j = 1" | "j = 2" | "j = 3" by linarith
  then show ?thesis
    by cases (simp_all add: be_bytes4_def uint_byte)
qed

section \<open>Frame codec\<close>

text \<open>
  C4. For every triple of signed 32-bit integers the header encoder succeeds and yields
  exactly 12 bytes; each field occupies four consecutive bytes, most significant byte
  first (byte \<open>j\<close> of a field holds bits \<open>8 * (3 - j)\<close> upwards of its two's complement
  value); and decoding those 12 bytes returns the same triple.
\<close>

theorem frame_codec_roundtrip:
  assumes "in_i32 stream_id" and "in_i32 len" and "in_i32 seq"
  shows "\<exists>bs. pack_iii stream_id len seq = Inr bs \<and> length bs = 12 \<and>
           (\<forall>j<4. uint (bs ! j) = stream_id div 256 ^ (3 - j) mod 256 \<and>
                  uint (bs ! (4 + j)) = len div 256 ^ (3 - j) mod 256 \<and>
                  uint (bs ! (8 + j)) = seq div 256 ^ (3 - j) mod 256) \<and>
           unpack_iii bs = Inr (stream_id, len, seq)"
proof -
  let ?bs = "be_bytes4 stream_id @ be_bytes4 len @ be_bytes4 seq"
  have p: "pack_iii stream_id len seq = Inr ?bs"
    using assms by (rule pack_iii_ok)
  have l: "length ?bs = 12"
    by (simp add: length_be_bytes4)
  have n: "uint (?bs ! j) = stream_id div 256 ^ (3 - j) mod 256 \<and>
           uint (?bs ! (4 + j)) = len div 256 ^ (3 - j) mod 256 \<and>
           uint (?bs ! (8 + j)) = seq div 256 ^ (3 - j) mod 256" if "j < 4" for j
    using that by (simp add: nth_append length_be_bytes4 be_bytes4_nth)
  have u: "unpack_iii ?bs = Inr (stream_id, len, seq)"
    using assms by (rule unpack_iii_be_bytes4)
  show ?thesis
    using p l n u by blast
qed

theorem frame_codec_roundtrip_witness:
  "in_i32 3 \<and> in_i32 1500 \<and> in_i32 (- 2) \<and>
   pack_iii 3 1500 (- 2) = Inr [0, 0, 0, 3, 0, 0, 5, 220, 255, 255, 255, 254] \<and>
   unpack_iii [0, 0, 0, 3, 0, 0, 5, 220, 255, 255, 255, 254] = Inr (3, 1500, - 2)"
proof -
  have h: "in_i32 3" "in_i32 1500" "in_i32 (- 2)"
    by (simp_all add: in_i32_def)
  have e: "pack_iii 3 1500 (- 2) = Inr [0, 0, 0, 3, 0, 0, 5, 220, 255, 255, 255, 254]"
    by (simp add: pack_iii_def pack_i_def in_i32_def be_bytes4_def)
  from frame_codec_roundtrip [OF h] e
  have "unpack_iii [0, 0, 0, 3, 0, 0, 5, 220, 255, 255, 255, 254] = Inr (3, 1500, - 2)"
    by auto
  with h e show ?thesis by simp
qed

section \<open>The sender emits the frames of its source\<close>

lemma num_packages_bounds:
  fixes p t :: int
  assumes "1 \<le> p"
  shows "((t + p - 1) div p - 1) * p < t" and "t \<le> (t + p - 1) div p * p"
proof -
  define n where "n = (t + p - 1) div p"
  have p: "0 < p" using assms by simp
  have "0 \<le> (t + p - 1) mod p" using p by simp
  then have a: "p * n \<le> t + p - 1"
    unfolding n_def using mult_div_mod_eq [of p "t + p - 1"] by linarith
  have "(t + p - 1) mod p < p" using p by simp
  then have b: "t + p - 1 < p * n + p"
    unfolding n_def using mult_div_mod_eq [of p "t + p - 1"] by linarith
  show "((t + p - 1) div p - 1) * p < t" using a unfolding n_def by (simp add: algebra_simps)
  show "t \<le> (t + p - 1) div p * p" using b unfolding n_def by (simp add: algebra_simps)
qed

lemma num_packages_ceiling:
  assumes "1 \<le> (p::int)"
  shows "(t + p - 1) div p = \<lceil>real_of_int t / real_of_int p\<rceil>"
proof -
  let ?n = "(t + p - 1) div p"
  have p: "0 < real_of_int p" using assms by simp
  have "real_of_int ((?n - 1) * p) < real_of_int t"
    using num_packages_bounds(1) [OF assms, of t] by linarith
  then have lo: "real_of_int ?n - 1 < real_of_int t / real_of_int p"
    using p by (simp add: pos_less_divide_eq)
  have "real_of_int t \<le> real_of_int (?n * p)"
    using num_packages_bounds(2) [OF assms, of t] by linarith
  then have hi: "real_of_int t / real_of_int p \<le> real_of_int ?n"
    using p by (simp add: pos_divide_le_eq)
  show ?thesis
    using lo hi by (simp add: ceiling_unique)
qed

lemma slice_index_int: "slice_index n (int m) = min n m"
  by (simp add: slice_index_def)

lemma package_chunk:
  assumes "1 \<le> p"
  shows "package xs p (int k) = take (nat p) (drop (k * nat p) xs)"
proof -
  have i1: "int k * p = int (k * nat p)" using assms by simp
  have i2: "(int k + 1) * p = int (k * nat p + nat p)" using assms by (simp add: algebra_simps)
  have a: "slice_index (length xs) (int k * p) = min (length xs) (k * nat p)"
    unfolding i1 by (rule slice_index_int)
  have b: "slice_index (length xs) ((int k + 1) * p) = min (length xs) (k * nat p + nat p)"
    unfolding i2 by (rule slice_index_int)
  show ?thesis
  proof (cases "k * nat p < length xs")
    case True
    then show ?thesis
      unfolding package_def py_slice_def Let_def a b
      by (simp add: min_def)
  next
    case False
    then show ?thesis
      unfolding package_def py_slice_def Let_def a b by simp
  qed
qed

lemma concat_chunks:
  "concat (map (\<lambda>k. take p (drop (k * p) xs)) [0..<n]) = take (n * p) xs"
proof (induction n)
  case 0
  then show ?case by simp
next
  case (Suc n)
  have "take (n * p) xs @ take p (drop (n * p) xs) = take (n * p + p) xs"
    by (simp add: take_add)
  then show ?case
    using Suc by (simp add: add.commute)
qed

lemma length_package_le:
  assumes "1 \<le> p"
  shows "int (length (package xs p (int k))) \<le> min p (int (length xs))"
proof -
  have "length (take (nat p) (drop (k * nat p) xs)) \<le> nat p"
    and "length (take (nat p) (drop (k * nat p) xs)) \<le> length xs"
    by simp_all
  then show ?thesis
    using assms unfolding package_chunk [OF assms] by linarith
qed

lemma package_nonempty:
  assumes "1 \<le> p" and "int k < (int (length xs) + p - 1) div p"
  shows "1 \<le> length (package xs p (int k))"
proof -
  let ?n = "(int (length xs) + p - 1) div p"
  have "int k * p \<le> (?n - 1) * p"
    using assms by (intro mult_right_mono) simp_all
  also have "\<dots> < int (length xs)"
    using num_packages_bounds(1) [OF assms(1)] .
  finally have "int (k * nat p) < int (length xs)"
    using assms(1) by simp
  then have "k * nat p < length xs" by linarith
  moreover have "1 \<le> nat p" using assms(1) by simp
  ultimately have "1 \<le> min (length xs - k * nat p) (nat p)" by simp
  then show ?thesis
    unfolding package_chunk [OF assms(1)] by simp
qed

lemma send_loop_eq:
  "send_loop xs p sid (map int ks) conn s =
     (if \<forall>k\<in>set ks. in_i32 sid \<and> in_i32 (int (length (package xs p (int k)))) \<and> in_i32 (int k)
      then None else Some StructError,
      conn @ concat (map (\<lambda>k. [be_bytes4 sid @ be_bytes4 (int (length (package xs p (int k))))
                                    @ be_bytes4 (int k), package xs p (int k)])
                      (takeWhile (\<lambda>k. in_i32 sid \<and> in_i32 (int (length (package xs p (int k)))) \<and>
                                       in_i32 (int k)) ks)),
      s + int (length (concat (map (\<lambda>k. package xs p (int k))
                      (takeWhile (\<lambda>k. in_i32 sid \<and> in_i32 (int (length (package xs p (int k)))) \<and>
                                       in_i32 (int k)) ks)))))"
proof (induction ks arbitrary: conn s)
  case Nil
  show ?case by simp
next
  case (Cons k ks)
  show ?case
  proof (cases "in_i32 sid \<and> in_i32 (int (length (package xs p (int k)))) \<and> in_i32 (int k)")
    case True
    then have "pack_iii sid (int (length (package xs p (int k)))) (int k) =
        Inr (be_bytes4 sid @ be_bytes4 (int (length (package xs p (int k)))) @ be_bytes4 (int k))"
      by (simp add: pack_iii_ok)
    then show ?thesis
      using True by (simp add: Let_def Cons.IH)
  next
    case False
    then have "pack_iii sid (int (length (package xs p (int k)))) (int k) = Inl StructError"
      by (rule pack_iii_error)
    then show ?thesis
      using False by (auto simp add: Let_def)
  qed
qed

lemma send_loop_ok:
  assumes "in_i32 sid"
    and "\<forall>k\<in>set ks. in_i32 (int (length (package xs p (int k)))) \<and> in_i32 (int k)"
  shows "send_loop xs p sid (map int ks) conn s =
     (None,
      conn @ concat (map (\<lambda>k. [be_bytes4 sid @ be_bytes4 (int (length (package xs p (int k))))
                                    @ be_bytes4 (int k), package xs p (int k)]) ks),
      s + int (length (concat (map (\<lambda>k. package xs p (int k)) ks))))"
  using assms
proof (induction ks arbitrary: conn s)
  case Nil
  then show ?case by simp
next
  case (Cons k ks)
  then show ?case
    by (simp add: pack_iii_ok Let_def)
qed

lemma num_packages_nonneg:
  assumes "1 \<le> (p::int)" and "0 \<le> t"
  shows "0 \<le> (t + p - 1) div p"
  using assms by (intro pos_imp_zdiv_nonneg_iff [THEN iffD2]) simp_all

lemma concat_packages:
  assumes "1 \<le> p"
  shows "concat (map (\<lambda>k. package xs p (int k)) [0..<nat ((int (length xs) + p - 1) div p)]) = xs"
proof -
  let ?n = "(int (length xs) + p - 1) div p"
  have n0: "0 \<le> ?n" using assms by (rule num_packages_nonneg) simp
  have "int (length xs) \<le> ?n * p"
    using num_packages_bounds(2) [OF assms] .
  also have "\<dots> = int (nat ?n * nat p)"
    using n0 assms by simp
  finally have le: "length xs \<le> nat ?n * nat p" by linarith
  have "concat (map (\<lambda>k. package xs p (int k)) [0..<nat ?n]) =
        concat (map (\<lambda>k. take (nat p) (drop (k * nat p) xs)) [0..<nat ?n])"
    by (simp add: package_chunk [OF assms])
  also have "\<dots> = take (nat ?n * nat p) xs"
    by (rule concat_chunks)
  also have "\<dots> = xs"
    using le by simp
  finally show ?thesis .
qed


lemma send_file_ok:
  assumes "1 \<le> package_size" and "in_i32 id_stream"
    and "min package_size (int (length file_data)) \<le> 2147483647"
    and "\<lceil>real (length file_data) / real_of_int package_size\<rceil> \<le> 2147483648"
  shows "send_file package_size file_data id_stream conn =
     (Inr (int (length file_data), \<lceil>real (length file_data) / real_of_int package_size\<rceil>),
      conn @
      concat (map (\<lambda>i. [be_bytes4 id_stream @
                          be_bytes4 (int (length (package file_data package_size (int i)))) @
                          be_bytes4 (int i),
                        package file_data package_size (int i)])
               [0..<nat \<lceil>real (length file_data) / real_of_int package_size\<rceil>]) @
      [be_bytes4 id_stream @ be_bytes4 0 @ be_bytes4 0])"
proof -
  let ?t = "int (length file_data)"
  let ?n = "(?t + package_size - 1) div package_size"
  have c: "\<lceil>real (length file_data) / real_of_int package_size\<rceil> = ?n"
    using num_packages_ceiling [OF assms(1), of ?t] by simp
  have n0: "0 \<le> ?n" using assms(1) by (rule num_packages_nonneg) simp
  have fits: "\<forall>k\<in>set [0..<nat ?n].
      in_i32 (int (length (package file_data package_size (int k)))) \<and> in_i32 (int k)"
  proof
    fix k assume "k \<in> set [0..<nat ?n]"
    then have k: "int k < ?n" by simp
    have "int (length (package file_data package_size (int k))) \<le> 2147483647"
      using length_package_le [OF assms(1), of file_data k] assms(3) by linarith
    moreover have "int k \<le> 2147483647"
      using k assms(4) unfolding c by linarith
    ultimately show "in_i32 (int (length (package file_data package_size (int k)))) \<and> in_i32 (int k)"
      by (simp add: in_i32_def)
  qed
  have loop: "send_loop file_data package_size id_stream (py_range ?n) conn 0 =
     (None,
      conn @ concat (map (\<lambda>k. [be_bytes4 id_stream @
                          be_bytes4 (int (length (package file_data package_size (int k)))) @
                          be_bytes4 (int k),
                        package file_data package_size (int k)]) [0..<nat ?n]),
      ?t)"
    unfolding py_range_def send_loop_ok [OF assms(2) fits] concat_packages [OF assms(1)]
    by simp
  have marker: "pack_iii id_stream 0 0 = Inr (be_bytes4 id_stream @ be_bytes4 0 @ be_bytes4 0)"
    using assms(2) by (intro pack_iii_ok) (simp_all add: in_i32_def)
  have ne: "package_size \<noteq> 0" using assms(1) by simp
  show ?thesis
    unfolding c send_file_def Let_def loop marker
    by (simp only: ne if_False prod.case option.case sum.case append_assoc)
qed



text \<open>
  C2 (as amended). For every source and every package size of at least 1, provided the
  stream id fits a signed 32-bit field, no package is longer than 2147483647 bytes and
  there are at most 2147483648 packages, \<open>send_file\<close> returns normally having sent
  exactly \<open>ceil(total_length / package_size)\<close> data frames, frame \<open>i\<close> being the header
  \<open>(id_stream, len(package i), i)\<close> followed by package \<open>i\<close>, and after them exactly one
  terminal header \<open>(id_stream, 0, 0)\<close>; the published statistics are the source length
  and the number of packages.
\<close>

theorem send_file_emits_frames:
  assumes "1 \<le> package_size" and "in_i32 id_stream"
    and "min package_size (int (length file_data)) \<le> 2147483647"
    and "\<lceil>real (length file_data) / real_of_int package_size\<rceil> \<le> 2147483648"
  shows "send_file package_size file_data id_stream conn =
     (Inr (int (length file_data), \<lceil>real (length file_data) / real_of_int package_size\<rceil>),
      conn @
      concat (map (\<lambda>i. [be_bytes4 id_stream @
                          be_bytes4 (int (length (package file_data package_size (int i)))) @
                          be_bytes4 (int i),
                        package file_data package_size (int i)])
               [0..<nat \<lceil>real (length file_data) / real_of_int package_size\<rceil>]) @
      [be_bytes4 id_stream @ be_bytes4 0 @ be_bytes4 0])"
  using assms by (rule send_file_ok)

theorem send_file_emits_frames_witness:
  "send_file 2 [1, 2, 3] 7 [] =
     (Inr (3, 2), [[0, 0, 0, 7, 0, 0, 0, 2, 0, 0, 0, 0], [1, 2],
                   [0, 0, 0, 7, 0, 0, 0, 1, 0, 0, 0, 1], [3],
                   [0, 0, 0, 7, 0, 0, 0, 0, 0, 0, 0, 0]])"
proof -
  have c: "\<lceil>real (length [1, 2, 3 :: byte]) / real_of_int 2\<rceil> = 2"
    by (simp add: ceiling_eq_iff)
  have "send_file 2 [1, 2, 3] 7 [] =
     (Inr (int (length [1, 2, 3 :: byte]), 2),
      [] @
      concat (map (\<lambda>i. [be_bytes4 7 @
                          be_bytes4 (int (length (package [1, 2, 3] 2 (int i)))) @
                          be_bytes4 (int i),
                        package [1, 2, 3] 2 (int i)])
               [0..<nat 2]) @
      [be_bytes4 7 @ be_bytes4 0 @ be_bytes4 0])"
    using send_file_emits_frames [of 2 7 "[1, 2, 3]" "[]"] unfolding c
    by (simp add: in_i32_def)
  also have "[0..<nat 2] = [0, 1]"
    by (simp add: upt_rec)
  finally show ?thesis
    by (simp add: package_def py_slice_def slice_index_def be_bytes4_def)
qed

text \<open>
  C2 as stated fails: a source of 2147483648 bytes sent with package size 2147483648 has
  \<open>ceil(total_length / package_size) = 1\<close>, but the length of its only package does not
  fit the header field, \<open>struct.pack\<close> raises and nothing is sent, not even the terminal
  frame.
\<close>

theorem send_file_overflow_counterexample:
  "(1::int) \<le> 2147483648 \<and>
   \<lceil>real (length (replicate 2147483648 (0::byte))) / real_of_int 2147483648\<rceil> = 1 \<and>
   send_file 2147483648 (replicate 2147483648 0) 0 [] = (Inl StructError, [])"
proof -
  have pk: "package (replicate 2147483648 (0::byte)) 2147483648 0 = replicate 2147483648 0"
    by (simp add: package_def py_slice_def slice_index_def)
  have r: "py_range 1 = [0]"
    by (simp add: py_range_def)
  have p: "pack_iii 0 2147483648 0 = Inl StructError"
    by (simp add: pack_iii_def pack_i_def in_i32_def)
  have "send_file 2147483648 (replicate 2147483648 0) 0 [] = (Inl StructError, [])"
    by (simp add: send_file_def Let_def r pk p)
  then show ?thesis by simp
qed


section \<open>Data frames are never empty\<close>


lemma snd_send_file:
  assumes "1 \<le> p"
  shows "snd (send_file p xs sid conn) =
     conn @ concat (map (\<lambda>k. [be_bytes4 sid @ be_bytes4 (int (length (package xs p (int k))))
                                    @ be_bytes4 (int k), package xs p (int k)])
                      (takeWhile (\<lambda>k. in_i32 sid \<and> in_i32 (int (length (package xs p (int k)))) \<and>
                                       in_i32 (int k)) [0..<nat ((int (length xs) + p - 1) div p)])) @
     (if (\<forall>k\<in>set [0..<nat ((int (length xs) + p - 1) div p)].
            in_i32 sid \<and> in_i32 (int (length (package xs p (int k)))) \<and> in_i32 (int k)) \<and> in_i32 sid
      then [be_bytes4 sid @ be_bytes4 0 @ be_bytes4 0] else [])"
proof -
  have ne: "p \<noteq> 0" using assms by simp
  have z: "in_i32 0" by (simp add: in_i32_def)
  show ?thesis
  proof (cases "in_i32 sid")
    case True
    then have "pack_iii sid 0 0 = Inr (be_bytes4 sid @ be_bytes4 0 @ be_bytes4 0)"
      using z by (simp add: pack_iii_ok)
    then show ?thesis
      unfolding send_file_def Let_def py_range_def send_loop_eq
      using ne True by simp
  next
    case False
    then have "pack_iii sid 0 0 = Inl StructError"
      by (simp add: pack_iii_error)
    then show ?thesis
      unfolding send_file_def Let_def py_range_def send_loop_eq
      using ne False by simp
  qed
qed




section \<open>One worker receiving the frames of one stream\<close>

lemma list_index_nat:
  "0 \<le> i \<Longrightarrow> i < int n \<Longrightarrow> list_index n i = Some (nat i)"
  by (simp add: list_index_def)

lemma commit_ok:
  assumes "file_buffers st sid = Some buf"
    and "list_index (length (curret_package st)) sid = Some k"
    and "curret_package st ! k = seq"
  shows "commit st sid seq pkg =
     Some (None, st\<lparr>curret_package := (curret_package st)[k := seq + 1],
                      file_buffers := (file_buffers st)(sid \<mapsto> buf @ pkg)\<rparr>)"
proof -
  have "commit st sid seq pkg = commit_loop st sid seq pkg False"
    using assms(1) by (simp add: commit_def)
  also have "\<dots> = commit_loop
       (st\<lparr>curret_package := (curret_package st)[k := seq + 1],
           file_buffers := (file_buffers st)(sid \<mapsto> buf @ pkg)\<rparr>) sid seq pkg True"
    by (subst commit_loop.simps) (simp add: assms Let_def)
  also have "\<dots> = Some (None, st\<lparr>curret_package := (curret_package st)[k := seq + 1],
                      file_buffers := (file_buffers st)(sid \<mapsto> buf @ pkg)\<rparr>)"
    by (subst commit_loop.simps) simp
  finally show ?thesis .
qed

lemma recv_exact:
  assumes "seg \<noteq> []" and "n = int (length seg)"
  shows "recv (seg # rest) n = Inr (seg, rest)"
  using assms by (simp add: recv_def)

lemma recv_frame_data:
  assumes "in_i32 sid" and "in_i32 (int (length pkg))" and "in_i32 seq" and "pkg \<noteq> []"
  shows "recv_frame ((be_bytes4 sid @ be_bytes4 (int (length pkg)) @ be_bytes4 seq) # pkg # rest) =
     (Inr (sid, int (length pkg), seq, pkg), rest)"
proof -
  let ?h = "be_bytes4 sid @ be_bytes4 (int (length pkg)) @ be_bytes4 seq"
  have l: "length ?h = 12" by (simp add: length_be_bytes4)
  then have ne: "?h \<noteq> []" by auto
  have r1: "recv (?h # pkg # rest) 12 = Inr (?h, pkg # rest)"
    using ne l by (intro recv_exact) simp_all
  have u: "unpack_iii ?h = Inr (sid, int (length pkg), seq)"
    using assms(1-3) by (rule unpack_iii_be_bytes4)
  have r2: "recv (pkg # rest) (int (length pkg)) = Inr (pkg, rest)"
    using assms(4) by (intro recv_exact) simp_all
  have nz: "int (length pkg) \<noteq> 0" using assms(4) by simp
  show ?thesis
    unfolding recv_frame_def r1 using ne u r2 nz by simp
qed

lemma recv_frame_marker:
  assumes "in_i32 sid"
  shows "recv_frame ((be_bytes4 sid @ be_bytes4 0 @ be_bytes4 0) # rest) = (Inl EndOfStream, rest)"
proof -
  let ?h = "be_bytes4 sid @ be_bytes4 0 @ be_bytes4 0"
  have l: "length ?h = 12" by (simp add: length_be_bytes4)
  then have ne: "?h \<noteq> []" by auto
  have r1: "recv (?h # rest) 12 = Inr (?h, rest)"
    using ne l by (intro recv_exact) simp_all
  have z: "in_i32 0" by (simp add: in_i32_def)
  have u: "unpack_iii ?h = Inr (sid, 0, 0)"
    using assms z z by (rule unpack_iii_be_bytes4)
  show ?thesis
    unfolding recv_frame_def r1 using ne u by simp
qed

lemma recv_file_step:
  assumes "recv_frame s = (Inr (sid, len, seq, pkg), s')"
    and "commit st sid seq pkg = Some (None, st')"
  shows "recv_file s st = recv_file s' st'"
  by (subst recv_file.simps) (simp add: assms)

lemma recv_file_exit:
  assumes "recv_frame s = (Inl reason, s')"
  shows "recv_file s st = Some (reason, s', st)"
  by (subst recv_file.simps) (simp add: assms)

lemma recv_file_frames:
  assumes "in_i32 sid"
    and "\<forall>i. j \<le> i \<and> i < n \<longrightarrow> pkg i \<noteq> [] \<and> in_i32 (int (length (pkg i))) \<and> in_i32 (int i)"
    and "file_buffers st sid = Some buf"
    and "list_index (length (curret_package st)) sid = Some k"
    and "k < length (curret_package st)"
    and "curret_package st ! k = int j"
    and "j \<le> n"
  shows "recv_file
           (concat (map (\<lambda>i. [be_bytes4 sid @ be_bytes4 (int (length (pkg i))) @ be_bytes4 (int i),
                               pkg i]) [j..<n]) @ rest) st =
         recv_file rest
           (st\<lparr>curret_package := (curret_package st)[k := int n],
               file_buffers := (file_buffers st)(sid \<mapsto> buf @ concat (map pkg [j..<n]))\<rparr>)"
  using assms(2-)
proof (induction "n - j" arbitrary: j st buf)
  case 0
  then have "j = n" by simp
  have "(curret_package st)[k := int n] = curret_package st"
    using 0 \<open>j = n\<close> by (metis list_update_id)
  moreover have "(file_buffers st)(sid \<mapsto> buf) = file_buffers st"
    using 0 by (simp add: fun_upd_idem)
  ultimately show ?case
    using \<open>j = n\<close> by simp
next
  case (Suc d)
  then have jn: "j < n" by simp
  have fit: "pkg j \<noteq> []" "in_i32 (int (length (pkg j)))" "in_i32 (int j)"
    using Suc.prems(1) jn by simp_all
  let ?st1 = "st\<lparr>curret_package := (curret_package st)[k := int j + 1],
                  file_buffers := (file_buffers st)(sid \<mapsto> buf @ pkg j)\<rparr>"
  let ?more = "concat (map (\<lambda>i. [be_bytes4 sid @ be_bytes4 (int (length (pkg i))) @ be_bytes4 (int i),
                               pkg i]) [Suc j..<n]) @ rest"
  have up: "[j..<n] = j # [Suc j..<n]"
    using jn by (rule upt_conv_Cons)
  have f: "recv_frame ((be_bytes4 sid @ be_bytes4 (int (length (pkg j))) @ be_bytes4 (int j))
              # pkg j # ?more) = (Inr (sid, int (length (pkg j)), int j, pkg j), ?more)"
    using assms(1) fit(2) fit(3) fit(1) by (rule recv_frame_data)
  have c: "commit st sid (int j) (pkg j) = Some (None, ?st1)"
    using Suc.prems(2) Suc.prems(3) Suc.prems(5) by (rule commit_ok)
  have step: "recv_file ((be_bytes4 sid @ be_bytes4 (int (length (pkg j))) @ be_bytes4 (int j))
              # pkg j # ?more) st = recv_file ?more ?st1"
    using f c by (rule recv_file_step)
  have ih: "recv_file ?more ?st1 =
      recv_file rest
        (?st1\<lparr>curret_package := (curret_package ?st1)[k := int n],
               file_buffers := (file_buffers ?st1)(sid \<mapsto> (buf @ pkg j) @ concat (map pkg [Suc j..<n]))\<rparr>)"
  proof (rule Suc.hyps(1))
    show "d = n - Suc j" using Suc.hyps(2) by simp
    show "\<forall>i. Suc j \<le> i \<and> i < n \<longrightarrow> pkg i \<noteq> [] \<and> in_i32 (int (length (pkg i))) \<and> in_i32 (int i)"
      using Suc.prems(1) by simp
    show "file_buffers ?st1 sid = Some (buf @ pkg j)" by simp
    show "list_index (length (curret_package ?st1)) sid = Some k"
      using Suc.prems(3) by simp
    show "k < length (curret_package ?st1)" using Suc.prems(4) by simp
    show "curret_package ?st1 ! k = int (Suc j)" using Suc.prems(4) by simp
    show "Suc j \<le> n" using jn by simp
  qed
  show ?case
    unfolding up using step ih by simp
qed


section \<open>Round trip\<close>

lemma packages_fit:
  assumes "1 \<le> p"
    and "min p (int (length xs)) \<le> 2147483647"
    and "(int (length xs) + p - 1) div p \<le> 2147483648"
    and "i < nat ((int (length xs) + p - 1) div p)"
  shows "package xs p (int i) \<noteq> []"
    and "in_i32 (int (length (package xs p (int i))))"
    and "in_i32 (int i)"
proof -
  have "int i < (int (length xs) + p - 1) div p"
    using assms(4) by linarith
  then have "1 \<le> length (package xs p (int i))"
    by (rule package_nonempty [OF assms(1)])
  then show "package xs p (int i) \<noteq> []" by auto
  have "int (length (package xs p (int i))) \<le> 2147483647"
    using length_package_le [OF assms(1), of xs i] assms(2) by linarith
  then show "in_i32 (int (length (package xs p (int i))))"
    by (simp add: in_i32_def)
  show "in_i32 (int i)"
    using assms(3,4) by (simp add: in_i32_def)
qed

lemma recv_file_closed: "recv_file [] st = Some (Eof, [], st)"
  by (rule recv_file_exit) (simp add: recv_frame_def recv_def)

text \<open>
  C1 (as amended). Let the source, the package size (at least 1) and the stream id be
  such that every header field fits 32 bits (stream id in \<open>0 .. 2147483647\<close>, no package
  longer than 2147483647 bytes, at most 2147483648 packages), and let the receiver's
  state hold an empty buffer and the expected number 0 for this stream. Then
  \<open>send_file\<close> returns normally, and a worker that reads what it sent, one \<open>send\<close> per
  \<open>recv\<close>, commits every data frame and leaves at the terminal header with the stream's
  buffer equal to the source and its counter equal to the number of packages; nothing
  else in the state changes.
\<close>

theorem round_trip:
  assumes "1 \<le> package_size" and "0 \<le> id_stream" and "id_stream \<le> 2147483647"
    and "min package_size (int (length file_data)) \<le> 2147483647"
    and "\<lceil>real (length file_data) / real_of_int package_size\<rceil> \<le> 2147483648"
    and "id_stream < int (length (curret_package st))"
    and "curret_package st ! nat id_stream = 0"
    and "file_buffers st id_stream = Some []"
  shows "fst (send_file package_size file_data id_stream []) =
           Inr (int (length file_data), \<lceil>real (length file_data) / real_of_int package_size\<rceil>) \<and>
         recv_file (snd (send_file package_size file_data id_stream [])) st =
           Some (EndOfStream, [],
                 st\<lparr>curret_package := (curret_package st)
                        [nat id_stream := \<lceil>real (length file_data) / real_of_int package_size\<rceil>],
                    file_buffers := (file_buffers st)(id_stream \<mapsto> file_data)\<rparr>)"
proof -
  let ?t = "int (length file_data)"
  let ?n = "(?t + package_size - 1) div package_size"
  let ?c = "\<lceil>real (length file_data) / real_of_int package_size\<rceil>"
  let ?pkg = "\<lambda>i. package file_data package_size (int i)"
  let ?marker = "be_bytes4 id_stream @ be_bytes4 0 @ be_bytes4 0"
  let ?st' = "st\<lparr>curret_package := (curret_package st)[nat id_stream := int (nat ?n)],
                 file_buffers := (file_buffers st)
                   (id_stream \<mapsto> [] @ concat (map ?pkg [0..<nat ?n]))\<rparr>"
  have c: "?c = ?n"
    using num_packages_ceiling [OF assms(1), of ?t] by simp
  have n0: "0 \<le> ?n" using assms(1) by (rule num_packages_nonneg) simp
  have sid: "in_i32 id_stream" using assms(2,3) by (simp add: in_i32_def)
  have sent: "send_file package_size file_data id_stream [] =
     (Inr (?t, ?c),
      [] @ concat (map (\<lambda>i. [be_bytes4 id_stream @ be_bytes4 (int (length (?pkg i))) @
                          be_bytes4 (int i), ?pkg i]) [0..<nat ?c]) @ [?marker])"
    using assms(1) sid assms(4,5) by (rule send_file_ok)
  have fits: "\<forall>i. 0 \<le> i \<and> i < nat ?n \<longrightarrow>
      ?pkg i \<noteq> [] \<and> in_i32 (int (length (?pkg i))) \<and> in_i32 (int i)"
    using packages_fit [OF assms(1) assms(4)] assms(5) unfolding c by blast
  have idx: "list_index (length (curret_package st)) id_stream = Some (nat id_stream)"
    using assms(2,6) by (rule list_index_nat)
  have lt: "nat id_stream < length (curret_package st)"
    using assms(2,6) by linarith
  have frames: "recv_file
      (concat (map (\<lambda>i. [be_bytes4 id_stream @ be_bytes4 (int (length (?pkg i))) @
                          be_bytes4 (int i), ?pkg i]) [0..<nat ?n]) @ [?marker]) st =
      recv_file [?marker] ?st'"
    using sid fits assms(8) idx lt
  proof (rule recv_file_frames)
    show "curret_package st ! nat id_stream = int 0" using assms(7) by simp
    show "0 \<le> nat ?n" by simp
  qed
  have "recv_file [?marker] ?st' = Some (EndOfStream, [], ?st')"
    using sid by (intro recv_file_exit recv_frame_marker)
  moreover have "?st' = st\<lparr>curret_package := (curret_package st)[nat id_stream := ?c],
                    file_buffers := (file_buffers st)(id_stream \<mapsto> file_data)\<rparr>"
    using n0 concat_packages [OF assms(1), of file_data] unfolding c by simp
  ultimately have run: "recv_file
      (concat (map (\<lambda>i. [be_bytes4 id_stream @ be_bytes4 (int (length (?pkg i))) @
                          be_bytes4 (int i), ?pkg i]) [0..<nat ?n]) @ [?marker]) st =
      Some (EndOfStream, [],
            st\<lparr>curret_package := (curret_package st)[nat id_stream := ?c],
                file_buffers := (file_buffers st)(id_stream \<mapsto> file_data)\<rparr>)"
    using frames by simp
  show ?thesis
    unfolding sent using run unfolding c by simp
qed

theorem round_trip_witness:
  "recv_file (snd (send_file 2 [1, 2, 3] 0 [])) (initial_state 1) =
     Some (EndOfStream, [],
           (initial_state 1)\<lparr>curret_package := [2],
                              file_buffers := (file_buffers (initial_state 1))(0 \<mapsto> [1, 2, 3])\<rparr>)"
proof -
  have c: "\<lceil>real (length [1, 2, 3 :: byte]) / real_of_int 2\<rceil> = 2"
    by (simp add: ceiling_eq_iff)
  have "recv_file (snd (send_file 2 [1, 2, 3] 0 [])) (initial_state 1) =
     Some (EndOfStream, [],
           (initial_state 1)\<lparr>curret_package := (curret_package (initial_state 1))[nat 0 := 2],
                              file_buffers := (file_buffers (initial_state 1))(0 \<mapsto> [1, 2, 3])\<rparr>)"
    using round_trip [of 2 0 "[1, 2, 3]" "initial_state 1"] unfolding c
    by (simp add: initial_state_def)
  then show ?thesis
    by (simp add: initial_state_def)
qed

text \<open>
  C1 as stated fails on a source of 2147483649 bytes sent one byte per package: package
  number 2147483648 does not fit the header, so \<open>send_file\<close> raises after 2147483648
  data frames; the receiver commits all of them and ends with a buffer one byte short
  of the source.
\<close>

lemma takeWhile_below:
  assumes "\<And>k. k < n \<Longrightarrow> P k" and "\<not> P n"
  shows "takeWhile P [0..<Suc n] = [0..<n]"
proof -
  have "takeWhile P ([0..<n] @ [n]) = [0..<n] @ takeWhile P [n]"
    using assms(1) by (intro takeWhile_append2) simp
  then show ?thesis
    using assms(2) by simp
qed

lemma take1_drop_replicate:
  "k < m \<Longrightarrow> take (Suc 0) (drop k (replicate m x)) = [x]"
  by (simp add: min_def)

lemma overflow_run:
  fixes N :: nat
  assumes N: "int N = 2147483648"
  shows "recv_file (snd (send_file 1 (replicate (Suc N) x) 0 [])) (initial_state 1) =
     Some (Eof, [],
           (initial_state 1)\<lparr>curret_package := [int N],
                              file_buffers := (file_buffers (initial_state 1))(0 \<mapsto> replicate N x)\<rparr>)"
proof -
  define d where "d = replicate (Suc N) x"
  have ld: "length d = Suc N" by (simp add: d_def)
  have t1: "take (Suc 0) (drop k d) = [x]" if "k < Suc N" for k
    unfolding d_def using that by (rule take1_drop_replicate)
  have tN: "take N d = replicate N x"
    unfolding d_def by (simp only: take_replicate) simp
  let ?pkg = "\<lambda>i. package d 1 (int i)"
  define P where "P = (\<lambda>k. in_i32 0 \<and> in_i32 (int (length (?pkg k))) \<and> in_i32 (int k))"
  have nn: "nat ((int (length d) + 1 - 1) div 1) = Suc N"
    by (simp add: ld)
  have pc: "?pkg k = take (Suc 0) (drop k d)" for k
    using package_chunk [of 1 d k] by simp
  have pk: "?pkg k = [x]" if "k < Suc N" for k
    unfolding pc using that by (rule t1)
  have Pk: "P k" if "k < N" for k
    using that N pk [of k] by (simp add: P_def in_i32_def)
  have PN: "\<not> P N"
    using N by (simp add: P_def in_i32_def)
  have tw: "takeWhile P [0..<Suc N] = [0..<N]"
    using Pk PN by (rule takeWhile_below)
  have nall: "\<not> ((\<forall>k\<in>set [0..<Suc N]. P k) \<and> in_i32 0)"
    using PN by auto
  have "snd (send_file 1 d 0 []) =
      [] @ concat (map (\<lambda>i. [be_bytes4 0 @ be_bytes4 (int (length (?pkg i))) @ be_bytes4 (int i),
                        ?pkg i]) (takeWhile P [0..<Suc N])) @
      (if (\<forall>k\<in>set [0..<Suc N]. P k) \<and> in_i32 0 then [be_bytes4 0 @ be_bytes4 0 @ be_bytes4 0]
       else [])"
    using snd_send_file [of 1 d 0 "[]"] unfolding nn P_def by simp
  then have sent: "snd (send_file 1 d 0 []) =
      concat (map (\<lambda>i. [be_bytes4 0 @ be_bytes4 (int (length (?pkg i))) @ be_bytes4 (int i),
                        ?pkg i]) [0..<N]) @ []"
    unfolding tw using nall by simp
  have z: "in_i32 0" by (simp add: in_i32_def)
  have fits: "\<forall>i. 0 \<le> i \<and> i < N \<longrightarrow>
      ?pkg i \<noteq> [] \<and> in_i32 (int (length (?pkg i))) \<and> in_i32 (int i)"
    using Pk pk by (simp add: P_def)
  have frames: "recv_file
      (concat (map (\<lambda>i. [be_bytes4 0 @ be_bytes4 (int (length (?pkg i))) @ be_bytes4 (int i),
                        ?pkg i]) [0..<N]) @ []) (initial_state 1) =
      recv_file []
        ((initial_state 1)\<lparr>curret_package := (curret_package (initial_state 1))[0 := int N],
            file_buffers := (file_buffers (initial_state 1))
               (0 \<mapsto> [] @ concat (map ?pkg [0..<N]))\<rparr>)"
    using z fits
  proof (rule recv_file_frames)
    show "file_buffers (initial_state 1) 0 = Some []" by (simp add: initial_state_def)
    show "list_index (length (curret_package (initial_state 1))) 0 = Some 0"
      by (simp add: initial_state_def list_index_def)
    show "0 < length (curret_package (initial_state 1))" by (simp add: initial_state_def)
    show "curret_package (initial_state 1) ! 0 = int 0" by (simp add: initial_state_def)
    show "0 \<le> N" by simp
  qed
  have "concat (map ?pkg [0..<N]) = concat (map (\<lambda>k. take (Suc 0) (drop (k * Suc 0) d)) [0..<N])"
    unfolding pc by simp
  also have "\<dots> = take (N * Suc 0) d"
    by (rule concat_chunks)
  finally have data: "concat (map ?pkg [0..<N]) = replicate N x"
    using tN by simp
  have cp: "(curret_package (initial_state 1))[0 := int N] = [int N]"
    by (simp add: initial_state_def)
  have "recv_file (snd (send_file 1 d 0 [])) (initial_state 1) =
     Some (Eof, [],
           (initial_state 1)\<lparr>curret_package := [int N],
                              file_buffers := (file_buffers (initial_state 1))(0 \<mapsto> replicate N x)\<rparr>)"
    unfolding sent frames recv_file_closed data cp by simp
  then show ?thesis
    unfolding d_def .
qed

theorem round_trip_overflow_counterexample:
  "recv_file (snd (send_file 1 (replicate 2147483649 0) 0 [])) (initial_state 1) =
     Some (Eof, [],
           (initial_state 1)\<lparr>curret_package := [2147483648],
                              file_buffers := (file_buffers (initial_state 1))
                                 (0 \<mapsto> replicate 2147483648 0)\<rparr>) \<and>
   replicate 2147483648 (0::byte) \<noteq> replicate 2147483649 0"
proof -
  have "recv_file (snd (send_file 1 (replicate (Suc 2147483648) 0) 0 [])) (initial_state 1) =
     Some (Eof, [],
           (initial_state 1)\<lparr>curret_package := [int 2147483648],
                              file_buffers := (file_buffers (initial_state 1))
                                 (0 \<mapsto> replicate 2147483648 0)\<rparr>)"
    by (rule overflow_run) simp
  moreover have "Suc 2147483648 = 2147483649" by simp
  moreover have "length (replicate 2147483648 (0::byte)) \<noteq> length (replicate 2147483649 (0::byte))"
    by simp
  then have "replicate 2147483648 (0::byte) \<noteq> replicate 2147483649 0"
    by metis
  ultimately show ?thesis by simp
qed


section \<open>How a worker leaves its loop\<close>

lemma unpack_iii_length: "unpack_iii header = Inr t \<Longrightarrow> length header = 12"
  by (simp add: unpack_iii_def split: if_splits)

text \<open>
  C5 (as amended). When a worker decodes a header whose length field is 0, whatever the
  stream id and the package number, the worker itself leaves its loop and returns: no
  stream state changes and whatever is still on the socket stays unread by this worker.
\<close>

theorem zero_length_ends_worker:
  assumes "recv s 12 = Inr (header, s')"
    and "unpack_iii header = Inr (id_stream, 0, id_package)"
  shows "recv_file s st = Some (EndOfStream, s', st)"
proof (rule recv_file_exit)
  have "length header = 12" using assms(2) by (rule unpack_iii_length)
  then have "header \<noteq> []" by auto
  then show "recv_frame s = (Inl EndOfStream, s')"
    using assms by (simp add: recv_frame_def)
qed

theorem zero_length_ends_worker_witness:
  "recv_file [[0, 0, 0, 3, 0, 0, 0, 0, 0, 0, 0, 5], [9, 9]] (initial_state 1) =
     Some (EndOfStream, [[9, 9]], initial_state 1)"
proof -
  have r: "recv [[0, 0, 0, 3, 0, 0, 0, 0, 0, 0, 0, 5], [9, 9]] 12 =
      Inr ([0, 0, 0, 3, 0, 0, 0, 0, 0, 0, 0, 5], [[9, 9]])"
    by (simp add: recv_def)
  have u: "unpack_iii [0, 0, 0, 3, 0, 0, 0, 0, 0, 0, 0, 5] = Inr (3, 0, 5)"
    by (simp add: unpack_iii_def unpack_i_def be_value_def)
  show ?thesis
    using zero_length_ends_worker [OF r u] .
qed

text \<open>
  C5 as stated fails: after the terminal header of stream 0 the worker has returned,
  although a data frame of stream 1 is pending on the socket; the frame stays unread and
  stream 1's buffer stays empty.
\<close>

theorem terminal_frame_stops_worker_counterexample:
  "recv_file [[0, 0, 0, 0, 0, 0, 0, 0, 0, 0, 0, 0],
              [0, 0, 0, 1, 0, 0, 0, 1, 0, 0, 0, 0], [7]] (initial_state 2) =
     Some (EndOfStream, [[0, 0, 0, 1, 0, 0, 0, 1, 0, 0, 0, 0], [7]], initial_state 2) \<and>
   file_buffers (initial_state 2) 1 = Some []"
proof -
  have "recv_frame [[0, 0, 0, 0, 0, 0, 0, 0, 0, 0, 0, 0],
              [0, 0, 0, 1, 0, 0, 0, 1, 0, 0, 0, 0], [7]] =
      (Inl EndOfStream, [[0, 0, 0, 1, 0, 0, 0, 1, 0, 0, 0, 0], [7]])"
    by (simp add: recv_frame_def recv_def unpack_iii_def unpack_i_def be_value_def)
  then have "recv_file [[0, 0, 0, 0, 0, 0, 0, 0, 0, 0, 0, 0],
              [0, 0, 0, 1, 0, 0, 0, 1, 0, 0, 0, 0], [7]] (initial_state 2) =
     Some (EndOfStream, [[0, 0, 0, 1, 0, 0, 0, 1, 0, 0, 0, 0], [7]], initial_state 2)"
    by (rule recv_file_exit)
  then show ?thesis
    by (simp add: initial_state_def)
qed

section \<open>Short reads\<close>

text \<open>
  A header read that returns fewer than 12 bytes makes \<open>struct.unpack\<close> raise; the
  exception is caught and printed and the worker leaves its loop with the state as it
  was.
\<close>

lemma short_header_is_caught:
  assumes "recv s 12 = Inr (header, s')" and "header \<noteq> []" and "length header \<noteq> 12"
  shows "recv_file s st = Some (Caught StructError, s', st)"
proof (rule recv_file_exit)
  have "unpack_iii header = Inl StructError"
    using assms(3) by (simp add: unpack_iii_def)
  then show "recv_frame s = (Inl (Caught StructError), s')"
    using assms(1,2) by (simp add: recv_frame_def)
qed

text \<open>
  C6. The claim that every payload read obtains exactly the declared number of bytes
  does not hold of the code: \<open>recv(data_length)\<close> is called once and its result is taken
  as the whole package. Here stream 0 announces a 14-byte package that arrives as 1 byte
  and then 13 bytes. The worker commits the single byte as the package, reads the first
  12 of the remaining bytes as a header of stream 1 and commits the last byte to stream
  1's buffer, and ends at end of stream without any exception.
\<close>

theorem short_payload_read_corrupts:
  "recv_file [[0, 0, 0, 0, 0, 0, 0, 14, 0, 0, 0, 0], [65],
              [0, 0, 0, 1, 0, 0, 0, 1, 0, 0, 0, 0, 66]] (initial_state 2) =
     Some (Eof, [],
           (initial_state 2)\<lparr>curret_package := [1, 1],
                              file_buffers := (file_buffers (initial_state 2))
                                 (0 \<mapsto> [65], 1 \<mapsto> [66])\<rparr>)"
proof -
  let ?st1 = "(initial_state 2)\<lparr>curret_package := (curret_package (initial_state 2))[0 := 0 + 1],
                 file_buffers := (file_buffers (initial_state 2))(0 \<mapsto> [] @ [65])\<rparr>"
  let ?st2 = "?st1\<lparr>curret_package := (curret_package ?st1)[1 := 0 + 1],
                 file_buffers := (file_buffers ?st1)(1 \<mapsto> [] @ [66])\<rparr>"
  have f1: "recv_frame [[0, 0, 0, 0, 0, 0, 0, 14, 0, 0, 0, 0], [65],
              [0, 0, 0, 1, 0, 0, 0, 1, 0, 0, 0, 0, 66]] =
      (Inr (0, 14, 0, [65]), [[0, 0, 0, 1, 0, 0, 0, 1, 0, 0, 0, 0, 66]])"
    by (simp add: recv_frame_def recv_def unpack_iii_def unpack_i_def be_value_def)
  have c1: "commit (initial_state 2) 0 0 [65] = Some (None, ?st1)"
    by (rule commit_ok) (simp_all add: initial_state_def list_index_def)
  have f2: "recv_frame [[0, 0, 0, 1, 0, 0, 0, 1, 0, 0, 0, 0, 66]] = (Inr (1, 1, 0, [66]), [])"
    by (simp add: recv_frame_def recv_def unpack_iii_def unpack_i_def be_value_def)
  have c2: "commit ?st1 1 0 [66] = Some (None, ?st2)"
    by (rule commit_ok) (simp_all add: initial_state_def list_index_def)
  have "recv_file [[0, 0, 0, 0, 0, 0, 0, 14, 0, 0, 0, 0], [65],
              [0, 0, 0, 1, 0, 0, 0, 1, 0, 0, 0, 0, 66]] (initial_state 2) =
        recv_file [[0, 0, 0, 1, 0, 0, 0, 1, 0, 0, 0, 0, 66]] ?st1"
    using f1 c1 by (rule recv_file_step)
  also have "\<dots> = recv_file [] ?st2"
    using f2 c2 by (rule recv_file_step)
  also have "\<dots> = Some (Eof, [], ?st2)"
    by (rule recv_file_closed)
  finally show ?thesis
    by (simp add: initial_state_def fun_upd_twist numeral_2_eq_2)
qed


section \<open>Aggregated statistics\<close>

lemma Max_insert_max:
  fixes a b :: "'a::linorder"
  assumes "finite A"
  shows "Max (insert (max a b) A) = Max (insert b (insert a A))"
proof (cases "A = {}")
  case True
  then show ?thesis by (simp add: max.commute)
next
  case False
  then show ?thesis
    using assms by (simp add: max.assoc max.commute max.left_commute)
qed

lemma close_loop_eq:
  "close_loop statistic (b, p, t) =
     (b + sum_list (map stat_bytes statistic), p + sum_list (map stat_packages statistic),
      Max (insert t (set (map stat_total_time statistic))))"
proof (induction statistic arbitrary: b p t)
  case Nil
  show ?case by simp
next
  case (Cons s rest)
  obtain fp nb np a1 a2 tt tu where s: "s = (fp, nb, np, a1, a2, tt, tu)"
    by (cases s)
  have m: "(if tt > t then tt else t) = max tt t"
    by (auto simp: max_def)
  have "Max (insert (max tt t) (set (map stat_total_time rest))) =
        Max (insert t (insert tt (set (map stat_total_time rest))))"
    by (rule Max_insert_max) simp
  then show ?case
    unfolding s by (simp add: Cons.IH m stat_bytes_def stat_packages_def stat_total_time_def
        del: Max_insert)
qed

text \<open>
  C8 (as amended). For any list of statistics, empty or not, \<open>close\<close> computes the total
  bytes and total packages as the sums of the per-stream values, the total time as the
  maximum of 0 and the per-stream total times, and each rate as the total divided by the
  total time when that is positive and as 0 otherwise.
\<close>

theorem close_totals:
  "close truediv statistic =
     (let sum_bytes = sum_list (map stat_bytes statistic);
          sum_packages = sum_list (map stat_packages statistic);
          total_time = Max (insert 0 (set (map stat_total_time statistic)))
      in (sum_bytes, sum_packages, total_time,
          if total_time > 0 then truediv sum_bytes total_time else 0,
          if total_time > 0 then truediv sum_packages total_time else 0))"
  by (simp add: close_def close_loop_eq Let_def del: Max_insert)

theorem close_totals_witness:
  "close exact_div [(''a'', 10, 2, 0, 0, 2, 0), (''b'', 30, 6, 0, 0, 4, 1)] = (40, 8, 4, 10, 2)"
  using close_totals [of exact_div "[(''a'', 10, 2, 0, 0, 2, 0), (''b'', 30, 6, 0, 0, 4, 1)]"]
  by (simp add: exact_div_def stat_bytes_def stat_packages_def stat_total_time_def)

text \<open>
  C8 as stated fails when no per-stream total time is positive: for a single statistic
  with total time \<open>-1\<close> the maximum of the per-stream values is \<open>-1\<close>, and \<open>close\<close>
  reports the total time 0.
\<close>

theorem close_negative_elapsed_counterexample:
  "close exact_div [(''a'', 10, 1, 0, 0, - 1, 0)] = (10, 1, 0, 0, 0) \<and>
   Max (set (map stat_total_time [(''a'', 10, 1, 0, 0, - 1 :: real, 0)])) = - 1"
  by (simp add: close_def stat_total_time_def)

section \<open>Handshake mismatch\<close>



text \<open>An echo with no integer value, such as the empty read of a closed connection, raises.\<close>

lemma handshake_unparsable_echo_raises:
  "fst (set_up_server other addr [] self) = Some ValueError"
  by (simp add: set_up_server_def Let_def recv_def int_decode_def)


section \<open>Two workers committing to one stream\<close>

lemma run_pool_Cons: "run_pool (w # schedule) p = run_pool schedule (worker_step w p)"
  by (simp add: run_pool_def)

lemma run_pool_Nil: "run_pool [] p = p"
  by (simp add: run_pool_def)

lemma two_streams_sent:
  "snd (send_file 1 [1, 2] 0 []) @ snd (send_file 1 [] 1 []) =
     [[0, 0, 0, 0, 0, 0, 0, 1, 0, 0, 0, 0], [1],
      [0, 0, 0, 0, 0, 0, 0, 1, 0, 0, 0, 1], [2],
      [0, 0, 0, 0, 0, 0, 0, 0, 0, 0, 0, 0],
      [0, 0, 0, 1, 0, 0, 0, 0, 0, 0, 0, 0]]"
proof -
  have r: "py_range 2 = [0, 1]" "py_range 0 = []"
    by (simp_all add: py_range_def upt_rec)
  have p: "package [1, 2] 1 0 = [1]" "package [1, 2] 1 1 = [2]"
    by (simp_all add: package_def py_slice_def slice_index_def)
  show ?thesis
    by (simp add: send_file_def Let_def r p pack_iii_def pack_i_def in_i32_def be_bytes4_def)
qed

text \<open>
  C3. The invariant does not hold of the code when two workers hold consecutive frames
  of one stream. Stream 0 sends the bytes 1 and 2 in two packages and stream 1 sends an
  empty file. Worker 0 reads package 0 and worker 1 reads package 1. Worker 0 increments
  the counter (line 101); before it extends the buffer (line 102), worker 1 finds the
  counter equal to its package number, increments it and extends the buffer; then
  worker 0 extends it. Both workers return at the terminal frames; the counter of stream
  0 is 2 and its buffer holds package 1 before package 0.
\<close>

theorem commit_race_reorders_buffer:
  "run_pool [0, 0, 0, 1, 1, 1, 0, 1, 1, 0, 0, 0, 1, 1]
     (start_pool 2 (snd (send_file 1 [1, 2] 0 []) @ snd (send_file 1 [] 1 [])))
   = \<lparr>client_socket = [], lock_held = False,
      shared = \<lparr>file_buffers = (file_buffers (initial_state 2))(0 \<mapsto> [2, 1]),
                curret_package = [2, 0]\<rparr>,
      workers = [Returned EndOfStream, Returned EndOfStream]\<rparr>"
  unfolding two_streams_sent
  by (simp add: run_pool_def start_pool_def worker_step_def leave_def initial_state_def recv_def
      unpack_iii_def unpack_i_def be_value_def list_index_def numeral_2_eq_2)

end
